theory Spec2Isabelle
  imports Complex_Main
begin

section \<open>Rate limiting and quota tracking\<close>

text \<open>
  Shallow embedding of \<^verbatim>\<open>backend/app/middleware/rate_limiter.py\<close> (classes
  \<^verbatim>\<open>TokenBucket\<close> and \<^verbatim>\<open>RateLimiter\<close>) and of the class \<^verbatim>\<open>QuotaTracker\<close> of
  \<^verbatim>\<open>backend/app/config.py\<close>.

  Python integers are embedded as \<open>int\<close>. Python floats are embedded as \<open>real\<close>: the
  arithmetic of the buckets is exact here, and the float operations of the constructor
  are embedded a second time with the rounding of IEEE 754 binary64
  (\<open>RateLimiter_init_float\<close>). Every method takes
  the object as its first argument and returns the updated object next to its result.
  Every call of \<^verbatim>\<open>time.time()\<close> in the source is an explicit argument of the model, so a
  method that reads the clock several times takes several readings.
\<close>

subsection \<open>Python primitives\<close>

datatype py_error = ZeroDivisionError | OverflowError

text \<open>\<^verbatim>\<open>int(x)\<close> on a float truncates towards zero.\<close>

definition py_int :: "real \<Rightarrow> int" where
  "py_int x = (if 0 \<le> x then \<lfloor>x\<rfloor> else \<lceil>x\<rceil>)"

text \<open>\<^verbatim>\<open>x or d\<close> for an optional integer: \<^verbatim>\<open>None\<close> and \<^verbatim>\<open>0\<close> are falsy.\<close>

definition py_or :: "int option \<Rightarrow> int \<Rightarrow> int" where
  "py_or x d = (case x of None \<Rightarrow> d | Some v \<Rightarrow> if v = 0 then d else v)"

subsection \<open>Floats\<close>

text \<open>
  A Python float is an IEEE 754 binary64 number. \<open>double_round x\<close> is the number of the
  form \<open>m * 2 ^ q\<close>, with \<open>m\<close> of at most 53 bits and \<open>q \<ge> -1074\<close>, that is nearest to
  \<open>x\<close>, ties going to the even \<open>m\<close>; the exponent has no upper bound here, and a result of
  magnitude \<open>2 ^ 1024\<close> or more stands for an infinity.
\<close>

definition round_half_even :: "real \<Rightarrow> int" where
  "round_half_even x =
     (let f = \<lfloor>x\<rfloor>; d = x - of_int f
      in if d < 1/2 then f else if 1/2 < d then f + 1 else if even f then f else f + 1)"

definition double_quantum :: "real \<Rightarrow> int" where
  "double_quantum x = max (\<lfloor>log 2 \<bar>x\<bar>\<rfloor> - 52) (- 1074)"

definition double_round :: "real \<Rightarrow> real" where
  "double_round x =
     (if x = 0 then 0
      else of_int (round_half_even (x / 2 powi double_quantum x)) * 2 powi double_quantum x)"

definition double_overflow :: "real \<Rightarrow> bool" where
  "double_overflow x = (2 ^ 1024 \<le> \<bar>double_round x\<bar>)"

text \<open>
  \<^verbatim>\<open>a / b\<close> on integers: the quotient correctly rounded; \<^verbatim>\<open>OverflowError\<close> when it is
  too large for a float.
\<close>

definition int_true_divide :: "int \<Rightarrow> int \<Rightarrow> py_error + real" where
  "int_true_divide a b =
     (if b = 0 then Inl ZeroDivisionError
      else if double_overflow (of_int a / of_int b) then Inl OverflowError
      else Inr (double_round (of_int a / of_int b)))"

text \<open>The conversion of the integer operand in \<^verbatim>\<open>n * x\<close> with a float \<^verbatim>\<open>x\<close>.\<close>

definition int_to_float :: "int \<Rightarrow> py_error + real" where
  "int_to_float n =
     (if double_overflow (of_int n) then Inl OverflowError else Inr (double_round (of_int n)))"

text \<open>The product of two floats; it does not raise, it overflows to an infinity.\<close>

definition float_mul :: "real \<Rightarrow> real \<Rightarrow> real" where
  "float_mul a b = double_round (a * b)"

text \<open>\<^verbatim>\<open>int(x)\<close> on a float that may be an infinity.\<close>

definition float_to_int :: "real \<Rightarrow> py_error + int" where
  "float_to_int x = (if 2 ^ 1024 \<le> \<bar>x\<bar> then Inl OverflowError else Inr (py_int x))"

subsection \<open>TokenBucket\<close>

record TokenBucket =
  rate :: real
  capacity :: int
  tokens :: real
  last_update :: real

text \<open>\<^verbatim>\<open>TokenBucket.__init__(rate, capacity)\<close>; \<open>now\<close> is the reading of the clock.\<close>

definition TokenBucket_init :: "real \<Rightarrow> int \<Rightarrow> real \<Rightarrow> TokenBucket" where
  "TokenBucket_init r c now =
     \<lparr>rate = r, capacity = c, tokens = of_int c, last_update = now\<rparr>"

text \<open>\<^verbatim>\<open>TokenBucket._refill\<close>.\<close>

definition refill :: "TokenBucket \<Rightarrow> real \<Rightarrow> TokenBucket" where
  "refill b now =
     (let elapsed = now - last_update b;
          tokens_to_add = elapsed * rate b
      in b\<lparr>tokens := min (of_int (capacity b)) (tokens b + tokens_to_add),
            last_update := now\<rparr>)"

text \<open>\<^verbatim>\<open>TokenBucket.consume(tokens)\<close>: the amount is \<open>n\<close>.\<close>

definition consume :: "TokenBucket \<Rightarrow> real \<Rightarrow> int \<Rightarrow> bool \<times> TokenBucket" where
  "consume b now n =
     (let b' = refill b now
      in if of_int n \<le> tokens b'
         then (True, b'\<lparr>tokens := tokens b' - of_int n\<rparr>)
         else (False, b'))"

text \<open>
  \<^verbatim>\<open>TokenBucket.time_until_available(tokens)\<close>. The division raises
  \<^verbatim>\<open>ZeroDivisionError\<close> when the rate is zero.
\<close>

definition time_until_available ::
  "TokenBucket \<Rightarrow> real \<Rightarrow> int \<Rightarrow> py_error + (real \<times> TokenBucket)" where
  "time_until_available b now n =
     (let b' = refill b now
      in if of_int n \<le> tokens b' then Inr (0, b')
         else let needed = of_int n - tokens b'
              in if rate b' = 0 then Inl ZeroDivisionError
                 else Inr (needed / rate b', b'))"


fun consume_trace :: "TokenBucket \<Rightarrow> (real \<times> int) list \<Rightarrow> TokenBucket list" where
  "consume_trace b [] = []"
| "consume_trace b ((now, n) # cs) =
     snd (consume b now n) # consume_trace (snd (consume b now n)) cs"

subsection \<open>RateLimiter\<close>

text \<open>The fields of \<^verbatim>\<open>Settings\<close> that the limiter and the tracker read.\<close>

record Settings =
  rate_limit_requests :: int
  rate_limit_window :: int
  daily_quota_limit :: int

text \<open>The defaults that \<^verbatim>\<open>Settings\<close> declares for these fields.\<close>

definition default_settings :: Settings where
  "default_settings =
     \<lparr>rate_limit_requests = 100, rate_limit_window = 3600, daily_quota_limit = 1000\<rparr>"

text \<open>
  The attributes \<^verbatim>\<open>self.rate\<close> and \<^verbatim>\<open>self.capacity\<close> of the limiter are the fields
  \<open>limiter_rate\<close> and \<open>limiter_capacity\<close>; \<^verbatim>\<open>_buckets\<close>, \<^verbatim>\<open>_last_cleanup\<close> and
  \<^verbatim>\<open>_cleanup_interval\<close> lose their underscore.
\<close>

record RateLimiter =
  requests_per_window :: int
  window_seconds :: int
  limiter_rate :: real
  limiter_capacity :: int
  buckets :: "string \<rightharpoonup> TokenBucket"
  last_cleanup :: real
  cleanup_interval :: real

text \<open>
  \<^verbatim>\<open>RateLimiter.__init__\<close> in exact arithmetic: what the constructor computes when
  neither float operation rounds or overflows. The true division raises when the window
  is zero, which the \<^verbatim>\<open>or\<close> leaves possible only through the settings.
\<close>

definition RateLimiter_init ::
  "Settings \<Rightarrow> int option \<Rightarrow> int option \<Rightarrow> real \<Rightarrow> real \<Rightarrow> py_error + RateLimiter" where
  "RateLimiter_init settings rpw ws burst_multiplier now =
     (let r = py_or rpw (rate_limit_requests settings);
          w = py_or ws (rate_limit_window settings)
      in if w = 0 then Inl ZeroDivisionError
         else Inr \<lparr>requests_per_window = r,
                   window_seconds = w,
                   limiter_rate = of_int r / of_int w,
                   limiter_capacity = py_int (of_int r * burst_multiplier),
                   buckets = Map.empty,
                   last_cleanup = now,
                   cleanup_interval = 3600\<rparr>)"

text \<open>
  \<^verbatim>\<open>RateLimiter.__init__\<close> with its float operations: the true division of the two
  integers, then the product of the integer and the float multiplier, truncated by
  \<^verbatim>\<open>int\<close>.
\<close>

definition RateLimiter_init_float ::
  "Settings \<Rightarrow> int option \<Rightarrow> int option \<Rightarrow> real \<Rightarrow> real \<Rightarrow> py_error + RateLimiter" where
  "RateLimiter_init_float settings rpw ws burst_multiplier now =
     (let r = py_or rpw (rate_limit_requests settings);
          w = py_or ws (rate_limit_window settings)
      in case int_true_divide r w of
           Inl e \<Rightarrow> Inl e
         | Inr q \<Rightarrow>
             (case int_to_float r of
                Inl e \<Rightarrow> Inl e
              | Inr fr \<Rightarrow>
                  (case float_to_int (float_mul fr burst_multiplier) of
                     Inl e \<Rightarrow> Inl e
                   | Inr c \<Rightarrow>
                       Inr \<lparr>requests_per_window = r,
                            window_seconds = w,
                            limiter_rate = q,
                            limiter_capacity = c,
                            buckets = Map.empty,
                            last_cleanup = now,
                            cleanup_interval = 3600\<rparr>)))"

text \<open>The guard of \<^verbatim>\<open>_maybe_cleanup\<close>: the sweep runs when it does not return early.\<close>

definition cleanup_due :: "RateLimiter \<Rightarrow> real \<Rightarrow> bool" where
  "cleanup_due s now = (\<not> now - last_cleanup s < cleanup_interval s)"

text \<open>The keys that the first loop of \<^verbatim>\<open>_maybe_cleanup\<close> collects.\<close>

definition stale_clients :: "RateLimiter \<Rightarrow> real \<Rightarrow> string set" where
  "stale_clients s now =
     {client_id. case buckets s client_id of
                   None \<Rightarrow> False
                 | Some bucket \<Rightarrow> cleanup_interval s < now - last_update bucket}"

text \<open>\<^verbatim>\<open>RateLimiter._maybe_cleanup\<close>; the second loop deletes the collected keys.\<close>

definition maybe_cleanup :: "RateLimiter \<Rightarrow> real \<Rightarrow> RateLimiter" where
  "maybe_cleanup s now =
     (if now - last_cleanup s < cleanup_interval s then s
      else s\<lparr>buckets := buckets s |` (- stale_clients s now),
              last_cleanup := now\<rparr>)"

text \<open>
  \<^verbatim>\<open>self._buckets[client_id]\<close> on the \<^verbatim>\<open>defaultdict\<close>: a missing key is bound to a new
  bucket, whose constructor reads the clock.
\<close>

definition get_bucket :: "RateLimiter \<Rightarrow> string \<Rightarrow> real \<Rightarrow> TokenBucket \<times> RateLimiter" where
  "get_bucket s client_id now =
     (case buckets s client_id of
        Some bucket \<Rightarrow> (bucket, s)
      | None \<Rightarrow>
          (let bucket = TokenBucket_init (limiter_rate s) (limiter_capacity s) now
           in (bucket, s\<lparr>buckets := (buckets s)(client_id \<mapsto> bucket)\<rparr>)))"

text \<open>
  The clock readings of one \<^verbatim>\<open>is_allowed\<close> call, in the order the source takes them: in
  \<^verbatim>\<open>_maybe_cleanup\<close>, in the constructor of a new bucket (read only when the key is
  new), in the \<^verbatim>\<open>_refill\<close> of \<^verbatim>\<open>consume\<close>, and in the \<^verbatim>\<open>_refill\<close> of
  \<^verbatim>\<open>time_until_available\<close> (read only on denial).
\<close>

record clock =
  t_cleanup :: real
  t_create :: real
  t_consume :: real
  t_retry :: real

definition nondecreasing :: "clock \<Rightarrow> bool" where
  "nondecreasing ck =
     (t_cleanup ck \<le> t_create ck \<and> t_create ck \<le> t_consume ck \<and> t_consume ck \<le> t_retry ck)"

text \<open>All four readings equal: no time passes during the call.\<close>

definition at_time :: "real \<Rightarrow> clock" where
  "at_time t = \<lparr>t_cleanup = t, t_create = t, t_consume = t, t_retry = t\<rparr>"

text \<open>
  \<^verbatim>\<open>RateLimiter.is_allowed\<close>. The bucket is an object shared with the dictionary, so
  what \<^verbatim>\<open>consume\<close> and \<^verbatim>\<open>time_until_available\<close> change is stored back under the key.
  The wait is a real number here, so the \<^verbatim>\<open>OverflowError\<close> that \<^verbatim>\<open>int\<close> raises on an
  infinite float has no counterpart in this function.
\<close>

definition is_allowed ::
  "RateLimiter \<Rightarrow> string \<Rightarrow> clock \<Rightarrow> py_error + ((bool \<times> int) \<times> RateLimiter)" where
  "is_allowed s client_id ck =
     (let s1 = maybe_cleanup s (t_cleanup ck);
          (bucket, s2) = get_bucket s1 client_id (t_create ck);
          (ok, bucket1) = consume bucket (t_consume ck) 1;
          s3 = s2\<lparr>buckets := (buckets s2)(client_id \<mapsto> bucket1)\<rparr>
      in if ok then Inr ((True, 0), s3)
         else (case time_until_available bucket1 (t_retry ck) 1 of
                 Inl e \<Rightarrow> Inl e
               | Inr (wait, bucket2) \<Rightarrow>
                   Inr ((False, py_int wait + 1),
                        s3\<lparr>buckets := (buckets s3)(client_id \<mapsto> bucket2)\<rparr>)))"

text \<open>A series of \<^verbatim>\<open>is_allowed\<close> calls; an exception ends it.\<close>

fun run_calls :: "RateLimiter \<Rightarrow> (string \<times> clock) list \<Rightarrow> py_error + RateLimiter" where
  "run_calls s [] = Inr s"
| "run_calls s ((client_id, ck) # cs) =
     (case is_allowed s client_id ck of
        Inl e \<Rightarrow> Inl e
      | Inr (res, s') \<Rightarrow> run_calls s' cs)"

text \<open>The answers of a series of \<^verbatim>\<open>is_allowed\<close> calls.\<close>

fun call_results :: "RateLimiter \<Rightarrow> (string \<times> clock) list \<Rightarrow> py_error + (bool \<times> int) list" where
  "call_results s [] = Inr []"
| "call_results s ((client_id, ck) # cs) =
     (case is_allowed s client_id ck of
        Inl e \<Rightarrow> Inl e
      | Inr (res, s') \<Rightarrow>
          (case call_results s' cs of Inl e \<Rightarrow> Inl e | Inr rs \<Rightarrow> Inr (res # rs)))"

text \<open>
  The clock readings at which the sweep of \<^verbatim>\<open>_maybe_cleanup\<close> runs during a series of
  \<^verbatim>\<open>is_allowed\<close> calls.
\<close>

fun sweep_times :: "RateLimiter \<Rightarrow> (string \<times> clock) list \<Rightarrow> real list" where
  "sweep_times s [] = []"
| "sweep_times s ((client_id, ck) # cs) =
     (if cleanup_due s (t_cleanup ck) then [t_cleanup ck] else []) @
     (case is_allowed s client_id ck of
        Inl e \<Rightarrow> []
      | Inr (res, s') \<Rightarrow> sweep_times s' cs)"

text \<open>
  A key is checked often enough during a series of calls: every call of the series starts
  at most \<open>interval\<close> after the latest earlier check of the key, which \<open>seen\<close> tracks (the
  reading that \<^verbatim>\<open>consume\<close> took in that check); and the clock does not go back between
  the two \<^verbatim>\<open>_refill\<close> readings of a call.
\<close>

fun checked_within :: "real \<Rightarrow> string \<Rightarrow> real \<Rightarrow> (string \<times> clock) list \<Rightarrow> bool" where
  "checked_within interval key seen [] = True"
| "checked_within interval key seen ((client_id, ck) # cs) =
     (t_cleanup ck - seen \<le> interval \<and> t_consume ck \<le> t_retry ck \<and>
      checked_within interval key (if client_id = key then t_consume ck else seen) cs)"

text \<open>
  The limiter and every bucket it holds refill at a positive rate, as they do after a
  construction with \<open>requests_per_window > 0\<close> and \<open>window_seconds > 0\<close> whose float
  quotient does not underflow to zero.
\<close>

definition positive_rates :: "RateLimiter \<Rightarrow> bool" where
  "positive_rates s =
     (0 < limiter_rate s \<and> (\<forall>client_id bucket. buckets s client_id = Some bucket \<longrightarrow> 0 < rate bucket))"

subsection \<open>QuotaTracker\<close>

record QuotaTracker =
  daily_limit :: int
  usage :: "string \<rightharpoonup> int"

definition QuotaTracker_init :: "int \<Rightarrow> QuotaTracker" where
  "QuotaTracker_init limit = \<lparr>daily_limit = limit, usage = Map.empty\<rparr>"

text \<open>\<^verbatim>\<open>self._usage.get(user_id, d)\<close>.\<close>

definition usage_get :: "QuotaTracker \<Rightarrow> string \<Rightarrow> int \<Rightarrow> int" where
  "usage_get q user_id d = (case usage q user_id of None \<Rightarrow> d | Some v \<Rightarrow> v)"

definition check_quota :: "QuotaTracker \<Rightarrow> string \<Rightarrow> bool \<times> QuotaTracker" where
  "check_quota q user_id =
     (let current = usage_get q user_id 0 in (current < daily_limit q, q))"

definition increment_usage :: "QuotaTracker \<Rightarrow> string \<Rightarrow> int \<Rightarrow> int \<times> QuotaTracker" where
  "increment_usage q user_id amount =
     (let current = usage_get q user_id 0;
          new_total = current + amount
      in (new_total, q\<lparr>usage := (usage q)(user_id \<mapsto> new_total)\<rparr>))"

definition get_remaining :: "QuotaTracker \<Rightarrow> string \<Rightarrow> int \<times> QuotaTracker" where
  "get_remaining q user_id =
     (let current = usage_get q user_id 0 in (max 0 (daily_limit q - current), q))"

definition reset_user :: "QuotaTracker \<Rightarrow> string \<Rightarrow> QuotaTracker" where
  "reset_user q user_id = q\<lparr>usage := (usage q)(user_id \<mapsto> 0)\<rparr>"

definition reset_all :: "QuotaTracker \<Rightarrow> QuotaTracker" where
  "reset_all q = q\<lparr>usage := Map.empty\<rparr>"

subsection \<open>The operations of the core\<close>






subsection \<open>Scenarios\<close>

text \<open>
  Two limiters for the examples: one built for 2 requests per window of 1 second, one for
  1 request per window of 7200 seconds, both with the burst multiplier 1.5, and the
  buckets they create.
\<close>

abbreviation fast_bucket :: "real \<Rightarrow> real \<Rightarrow> TokenBucket" where
  "fast_bucket tk lu \<equiv> \<lparr>rate = 2, capacity = 3, tokens = tk, last_update = lu\<rparr>"

abbreviation fast_limiter :: "(string \<rightharpoonup> TokenBucket) \<Rightarrow> real \<Rightarrow> RateLimiter" where
  "fast_limiter bs lc \<equiv>
     \<lparr>requests_per_window = 2, window_seconds = 1, limiter_rate = 2, limiter_capacity = 3,
      buckets = bs, last_cleanup = lc, cleanup_interval = 3600\<rparr>"

abbreviation slow_bucket :: "real \<Rightarrow> real \<Rightarrow> TokenBucket" where
  "slow_bucket tk lu \<equiv> \<lparr>rate = 1/7200, capacity = 1, tokens = tk, last_update = lu\<rparr>"

abbreviation slow_limiter :: "(string \<rightharpoonup> TokenBucket) \<Rightarrow> real \<Rightarrow> RateLimiter" where
  "slow_limiter bs lc \<equiv>
     \<lparr>requests_per_window = 1, window_seconds = 7200, limiter_rate = 1/7200,
      limiter_capacity = 1, buckets = bs, last_cleanup = lc, cleanup_interval = 3600\<rparr>"

section \<open>Properties of the token bucket\<close>

lemma refill_fields [simp]:
  "rate (refill b now) = rate b"
  "capacity (refill b now) = capacity b"
  "last_update (refill b now) = now"
  by (simp_all add: refill_def Let_def)

lemma refill_tokens:
  "tokens (refill b now) = min (of_int (capacity b)) (tokens b + (now - last_update b) * rate b)"
  by (simp add: refill_def Let_def)

lemma refill_idem: "refill (refill b now) now = refill b now"
  by (simp add: refill_def Let_def)

lemma consume_fields [simp]:
  "rate (snd (consume b now n)) = rate b"
  "capacity (snd (consume b now n)) = capacity b"
  "last_update (snd (consume b now n)) = now"
  by (simp_all add: consume_def Let_def)







subsection \<open>The capacity bound\<close>

lemma refill_bounds:
  assumes "0 \<le> rate b" and "0 \<le> capacity b" and "last_update b \<le> now" and "0 \<le> tokens b"
  shows "0 \<le> tokens (refill b now) \<and> tokens (refill b now) \<le> of_int (capacity b)"
proof -
  have "0 \<le> (now - last_update b) * rate b" using assms by simp
  then have "0 \<le> tokens b + (now - last_update b) * rate b" using assms by simp
  then show ?thesis using assms by (simp add: refill_tokens)
qed

lemma consume_bounds:
  assumes "0 \<le> rate b" and "0 \<le> capacity b" and "last_update b \<le> now" and "0 \<le> tokens b"
    and "0 \<le> n"
  shows "0 \<le> tokens (snd (consume b now n))
       \<and> tokens (snd (consume b now n)) \<le> of_int (capacity b)"
proof -
  have r: "0 \<le> tokens (refill b now)" "tokens (refill b now) \<le> of_int (capacity b)"
    using refill_bounds[OF assms(1-4)] by simp_all
  show ?thesis
  proof (cases "of_int n \<le> tokens (refill b now)")
    case True
    then have "tokens (snd (consume b now n)) = tokens (refill b now) - of_int n"
      by (simp add: consume_def Let_def)
    then show ?thesis using r True assms(5) by simp
  next
    case False
    then have "tokens (snd (consume b now n)) = tokens (refill b now)"
      by (simp add: consume_def Let_def)
    then show ?thesis using r by simp
  qed
qed

lemma consume_trace_bounds:
  assumes "0 \<le> rate b" and "0 \<le> capacity b" and "0 \<le> tokens b"
    and "sorted (last_update b # map fst calls)" and "\<forall>c \<in> set calls. 0 \<le> snd c"
  shows "\<forall>b' \<in> set (consume_trace b calls).
           0 \<le> tokens b' \<and> tokens b' \<le> of_int (capacity b)"
  using assms
proof (induction calls arbitrary: b)
  case Nil
  then show ?case by simp
next
  case (Cons c calls)
  obtain now n where c: "c = (now, n)" by (cases c)
  let ?b = "snd (consume b now n)"
  have le: "last_update b \<le> now" and n: "0 \<le> n" using Cons.prems c by simp_all
  have step: "0 \<le> tokens ?b \<and> tokens ?b \<le> of_int (capacity b)"
    by (rule consume_bounds[OF Cons.prems(1,2) le Cons.prems(3) n])
  have "\<forall>b' \<in> set (consume_trace ?b calls). 0 \<le> tokens b' \<and> tokens b' \<le> of_int (capacity ?b)"
    by (rule Cons.IH) (use Cons.prems c step in simp_all)
  then show ?case using step c by simp
qed

text \<open>
  Claim C2, as stated, fails: \<^verbatim>\<open>consume\<close> checks neither its amount nor the parameters
  of the bucket. A full bucket of capacity 1 that is asked for \<open>-1\<close> tokens ends with 2
  tokens; a bucket with rate \<open>-1\<close> and one with capacity \<open>-1\<close> end with \<open>-1\<close> tokens.
\<close>

theorem capacity_bound_counterexample:
  "tokens (snd (consume (TokenBucket_init 1 1 0) 0 (- 1))) = 2
   \<and> capacity (snd (consume (TokenBucket_init 1 1 0) 0 (- 1))) = 1
   \<and> tokens (snd (consume (TokenBucket_init (- 1) 1 0) 2 1)) = - 1
   \<and> tokens (snd (consume (TokenBucket_init 1 (- 1) 0) 0 1)) = - 1"
  by (simp add: consume_def refill_def TokenBucket_init_def Let_def)

text \<open>
  Claim C2, amended. For a bucket built with a rate and a capacity that are not negative,
  and a series of \<^verbatim>\<open>consume\<close> calls whose amounts are not negative and whose clock
  readings never decrease from the reading of the constructor on, the bucket holds at least
  0 and at most \<open>capacity\<close> tokens after every call.
\<close>

theorem capacity_bound:
  assumes "0 \<le> r" and "0 \<le> C"
    and "sorted (t0 # map fst calls)" and "\<forall>c \<in> set calls. 0 \<le> snd c"
  shows "\<forall>b \<in> set (consume_trace (TokenBucket_init r C t0) calls).
           0 \<le> tokens b \<and> tokens b \<le> of_int (capacity b) \<and> capacity b = C"
proof -
  let ?b = "TokenBucket_init r C t0"
  have f: "rate ?b = r" "capacity ?b = C" "tokens ?b = of_int C" "last_update ?b = t0"
    by (simp_all add: TokenBucket_init_def)
  have cap: "\<forall>b \<in> set (consume_trace b0 calls). capacity b = capacity b0" for b0
    by (induction b0 calls rule: consume_trace.induct) simp_all
  have "\<forall>b' \<in> set (consume_trace ?b calls). 0 \<le> tokens b' \<and> tokens b' \<le> of_int (capacity ?b)"
    by (rule consume_trace_bounds) (use assms f in simp_all)
  then show ?thesis using cap[of ?b] f by simp
qed

theorem capacity_bound_witness:
  "(0::real) \<le> 1/2 \<and> (0::int) \<le> 2 \<and> sorted [0, 1, 1, 3::real]
   \<and> list_all (\<lambda>c. 0 \<le> snd c) [(1, 2), (1, 1), (3::real, 1::int)]
   \<and> map tokens (consume_trace (TokenBucket_init (1/2) 2 0) [(1, 2), (1, 1), (3, 1)]) = [0, 0, 0]"
  using capacity_bound[of "1/2" 2 0 "[(1, 2), (1, 1), (3, 1)]"]
  by (simp add: consume_def refill_def TokenBucket_init_def Let_def)

section \<open>Properties of the quota tracker\<close>

text \<open>
  Claim C7. \<^verbatim>\<open>check_quota\<close> answers \<^verbatim>\<open>True\<close> exactly when the usage recorded for the
  key, or 0 when there is none, is below the daily limit, and it returns the tracker as it
  was.
\<close>

theorem check_quota_pure:
  "fst (check_quota q key) = ((case usage q key of None \<Rightarrow> 0 | Some u \<Rightarrow> u) < daily_limit q)
   \<and> snd (check_quota q key) = q"
  by (simp add: check_quota_def usage_get_def)

text \<open>
  Claim C8, as stated, fails: \<^verbatim>\<open>increment_usage\<close> takes any integer. On a new tracker
  with limit 10 the remaining quota of a key is 10; after an increment by 0 it is still
  10, and after an increment by \<open>-1\<close> it is 11.
\<close>

theorem remaining_counterexample:
  "fst (get_remaining (QuotaTracker_init 10) ''u'') = 10
   \<and> fst (get_remaining (snd (increment_usage (QuotaTracker_init 10) ''u'' 0)) ''u'') = 10
   \<and> fst (get_remaining (snd (increment_usage (QuotaTracker_init 10) ''u'' (- 1))) ''u'') = 11"
  by (simp add: get_remaining_def increment_usage_def usage_get_def QuotaTracker_init_def Let_def)

text \<open>
  Claim C8, amended. \<^verbatim>\<open>get_remaining\<close> is the larger of 0 and the daily limit minus the
  recorded usage (0 for an unknown key), so it is never negative; and an
  \<^verbatim>\<open>increment_usage\<close> of the same key by an amount of at least 1 makes it strictly
  smaller, or leaves it at 0.
\<close>

theorem remaining_decreases:
  assumes "1 \<le> amount"
  shows "fst (get_remaining q key)
           = max 0 (daily_limit q - (case usage q key of None \<Rightarrow> 0 | Some u \<Rightarrow> u))
    \<and> 0 \<le> fst (get_remaining (snd (increment_usage q key amount)) key)
    \<and> (fst (get_remaining (snd (increment_usage q key amount)) key) < fst (get_remaining q key)
       \<or> (fst (get_remaining q key) = 0
          \<and> fst (get_remaining (snd (increment_usage q key amount)) key) = 0))"
  using assms
  by (auto simp add: get_remaining_def increment_usage_def usage_get_def Let_def
      split: option.splits)

theorem remaining_decreases_witness:
  "(1::int) \<le> 1
   \<and> fst (get_remaining (QuotaTracker_init 10) ''u'') = 10
   \<and> fst (get_remaining (snd (increment_usage (QuotaTracker_init 10) ''u'' 1)) ''u'') = 9"
  using remaining_decreases[of 1 "QuotaTracker_init 10" "''u''"]
  by (simp add: get_remaining_def increment_usage_def usage_get_def QuotaTracker_init_def Let_def)

section \<open>Properties of the float operations\<close>

lemma round_half_even_of_int [simp]: "round_half_even (of_int n) = n"
  by (simp add: round_half_even_def)

lemma round_half_even_ge_floor: "\<lfloor>x\<rfloor> \<le> round_half_even x"
  by (simp add: round_half_even_def Let_def)


lemma round_half_even_pos: "1/2 < x \<Longrightarrow> 1 \<le> round_half_even x"
proof -
  assume a: "1/2 < x"
  then have f: "0 \<le> \<lfloor>x\<rfloor>" by simp
  show ?thesis
  proof (cases "\<lfloor>x\<rfloor> = 0")
    case True
    then show ?thesis using a by (simp add: round_half_even_def)
  next
    case False
    then have "1 \<le> \<lfloor>x\<rfloor>" using f by linarith
    then show ?thesis using round_half_even_ge_floor[of x] by linarith
  qed
qed

lemma powr_powi: "(2::real) powr of_int k = 2 powi k"
  using powr_real_of_int'[of 2 k] by simp

lemma floor_log2_eq:
  assumes "2 powi e \<le> \<bar>x\<bar>" and "\<bar>x\<bar> < 2 powi (e + 1)"
  shows "\<lfloor>log 2 \<bar>x\<bar>\<rfloor> = e"
proof -
  have "0 < (2::real) powi e" by simp
  then have pos: "0 < \<bar>x\<bar>" using assms(1) by linarith
  have "2 powr of_int e \<le> \<bar>x\<bar> \<and> \<bar>x\<bar> < 2 powr (of_int e + 1)"
    using assms powr_powi[of e] powr_powi[of "e + 1"] by simp
  then show ?thesis using floor_log_eq_powr_iff[of "\<bar>x\<bar>" 2 e] pos by simp
qed

lemma floor_log2_bounds:
  assumes "x \<noteq> 0"
  shows "2 powi \<lfloor>log 2 \<bar>x\<bar>\<rfloor> \<le> \<bar>x\<bar>" and "\<bar>x\<bar> < 2 powi (\<lfloor>log 2 \<bar>x\<bar>\<rfloor> + 1)"
proof -
  have pos: "0 < \<bar>x\<bar>" using assms by simp
  have "2 powr of_int \<lfloor>log 2 \<bar>x\<bar>\<rfloor> \<le> \<bar>x\<bar> \<and> \<bar>x\<bar> < 2 powr (of_int \<lfloor>log 2 \<bar>x\<bar>\<rfloor> + 1)"
    using floor_log_eq_powr_iff[of "\<bar>x\<bar>" 2 "\<lfloor>log 2 \<bar>x\<bar>\<rfloor>"] pos by simp
  then show "2 powi \<lfloor>log 2 \<bar>x\<bar>\<rfloor> \<le> \<bar>x\<bar>" and "\<bar>x\<bar> < 2 powi (\<lfloor>log 2 \<bar>x\<bar>\<rfloor> + 1)"
    using powr_powi[of "\<lfloor>log 2 \<bar>x\<bar>\<rfloor>"] powr_powi[of "\<lfloor>log 2 \<bar>x\<bar>\<rfloor> + 1"] by simp_all
qed

lemma double_round_eval:
  assumes "2 powi e \<le> \<bar>x\<bar>" and "\<bar>x\<bar> < 2 powi (e + 1)"
  shows "double_round x =
         of_int (round_half_even (x / 2 powi max (e - 52) (- 1074))) * 2 powi max (e - 52) (- 1074)"
proof -
  have "0 < (2::real) powi e" by simp
  then have "0 < \<bar>x\<bar>" using assms(1) by linarith
  then have "x \<noteq> 0" by simp
  then show ?thesis
    using floor_log2_eq[OF assms] by (simp add: double_round_def double_quantum_def)
qed

lemma powi2_less_imp: "(2::real) powi a < 2 powi b \<Longrightarrow> a < b"
  using power_int_increasing[of b a "2::real"] by (cases "a < b") auto

lemma powi2_le_imp: "(2::real) powi a \<le> 2 powi b \<Longrightarrow> a \<le> b"
  using power_int_strict_increasing[of b a "2::real"] by (cases "a \<le> b") auto


lemma double_round_pos:
  assumes "2 powi (- 1075) < x"
  shows "0 < double_round x"
proof -
  have "0 < (2::real) powi (- 1075)" by (rule zero_less_power_int) simp
  then have x: "0 < x" using assms by linarith
  then have nz: "x \<noteq> 0" by simp
  let ?e = "\<lfloor>log 2 \<bar>x\<bar>\<rfloor>"
  let ?q = "double_quantum x"
  have lo: "2 powi ?e \<le> x" using floor_log2_bounds(1)[OF nz] x by simp
  have qpos: "0 < (2::real) powi ?q" by (rule zero_less_power_int) simp
  have half: "1/2 < x / 2 powi ?q"
  proof (cases "?e - 52 \<le> - 1074")
    case True
    then have q: "?q = - 1074" unfolding double_quantum_def by linarith
    have "(2::real) powi (- 1075) = 2 powi (- 1074) * 2 powi (- 1)"
      using power_int_add[of "2::real" "- 1074" "- 1"] by simp
    then have "2 powi (- 1074) * (1/2) < x" using assms by (simp add: power_int_minus)
    then have "1/2 < x / 2 powi (- 1074)"
      using qpos q by (simp add: pos_less_divide_eq mult.commute)
    then show ?thesis using q by simp
  next
    case False
    then have q: "?q = ?e - 52" unfolding double_quantum_def by linarith
    have "(2::real) powi ?e = 2 powi (?e - 52) * 2 powi 52"
      using power_int_add[of "2::real" "?e - 52" 52] by simp
    then have "2 powi (?e - 52) * 2 powi 52 \<le> x" using lo by simp
    then have "2 powi 52 \<le> x / 2 powi (?e - 52)"
      using qpos q by (simp add: pos_le_divide_eq mult.commute)
    moreover have "(1::real) \<le> 2 powi 52" by (rule one_le_power_int) simp_all
    ultimately have "1/2 < x / 2 powi (?e - 52)" by linarith
    then show ?thesis by (simp only: q)
  qed
  have "1 \<le> round_half_even (x / 2 powi ?q)" using half by (rule round_half_even_pos)
  then have "0 < real_of_int (round_half_even (x / 2 powi ?q))" by simp
  then have "0 < real_of_int (round_half_even (x / 2 powi ?q)) * 2 powi ?q"
    using qpos by (rule mult_pos_pos)
  then show ?thesis using nz by (simp add: double_round_def)
qed


lemma double_round_representable:
  assumes "\<bar>m\<bar> < 2 ^ 53" and "- 1074 \<le> k"
  shows "double_round (of_int m * 2 powi k) = of_int m * 2 powi k"
proof (cases "m = 0")
  case True
  then show ?thesis by (simp add: double_round_def)
next
  case False
  let ?x = "real_of_int m * 2 powi k"
  let ?e = "\<lfloor>log 2 \<bar>?x\<bar>\<rfloor>"
  let ?q = "double_quantum ?x"
  have kpos: "0 < (2::real) powi k" by (rule zero_less_power_int) simp
  have nz: "?x \<noteq> 0" using False kpos by simp
  have "real_of_int \<bar>m\<bar> < real_of_int (2 ^ 53)" using assms(1) by (simp only: of_int_less_iff)
  then have m: "\<bar>real_of_int m\<bar> < 2 powi 53" by simp
  have "\<bar>?x\<bar> = \<bar>real_of_int m\<bar> * 2 powi k" using kpos by (simp add: abs_mult)
  also have "\<dots> < 2 powi 53 * 2 powi k" using m kpos by (rule mult_strict_right_mono)
  also have "\<dots> = 2 powi (53 + k)" using power_int_add[of "2::real" 53 k] by simp
  finally have "\<bar>?x\<bar> < 2 powi (53 + k)" .
  then have "(2::real) powi ?e < 2 powi (53 + k)"
    using floor_log2_bounds(1)[OF nz] by linarith
  then have "?e < 53 + k" by (rule powi2_less_imp)
  then have "?q \<le> k" using assms(2) unfolding double_quantum_def by linarith
  define q where "q = ?q"
  define n where "n = nat (k - q)"
  have qk: "q \<le> k" using \<open>?q \<le> k\<close> by (simp only: q_def)
  have "(2::real) powi k = 2 powi q * 2 powi (k - q)"
    using power_int_add[of "2::real" q "k - q"] by simp
  also have "(2::real) powi (k - q) = 2 ^ n"
    using qk by (simp add: power_int_nonneg_exp n_def)
  finally have k: "(2::real) powi k = 2 powi q * 2 ^ n" .
  have qpos: "0 < (2::real) powi q" by (rule zero_less_power_int) simp
  have "?x / 2 powi q = real_of_int m * 2 ^ n"
    using qpos by (simp add: k)
  also have "\<dots> = real_of_int (m * 2 ^ n)" by simp
  finally have "round_half_even (?x / 2 powi q) = m * 2 ^ n"
    by (simp only: round_half_even_of_int)
  then have "double_round ?x = real_of_int (m * 2 ^ n) * 2 powi q"
    using nz unfolding double_round_def q_def by (simp only: if_False)
  also have "\<dots> = real_of_int m * (2 powi q * 2 ^ n)" by simp
  also have "\<dots> = ?x" by (simp only: k)
  finally show ?thesis .
qed


lemma double_round_of_int: "\<bar>m\<bar> < 2 ^ 53 \<Longrightarrow> double_round (of_int m) = of_int m"
  using double_round_representable[of m 0] by simp

text \<open>
  Values of the rounding that the examples need.
\<close>

lemma double_round_examples:
  "double_round 1 = 1"
  "double_round 100 = 100"
  "double_round 150 = 150"
  "double_round (3/2) = 3/2"
  "double_round (1/36) = 2001599834386887 / 72057594037927936"
  "double_round 9007199254740992 = 9007199254740992"
  "double_round 9007199254740993 = 9007199254740992"
  "double_round (135107988821114875 / 1125899906842624) = 120"
proof -
  show "double_round 1 = 1" using double_round_of_int[of 1] by simp
  show "double_round 100 = 100" using double_round_of_int[of 100] by simp
  show "double_round 150 = 150" using double_round_of_int[of 150] by simp
  show "double_round (3/2) = 3/2" using double_round_representable[of 3 "- 1"] by simp
  show "double_round (1/36) = 2001599834386887 / 72057594037927936"
    using double_round_eval[of "- 6" "1/36"] by (simp add: round_half_even_def)
  show "double_round 9007199254740992 = 9007199254740992"
    using double_round_representable[of 1 53] by simp
  show "double_round 9007199254740993 = 9007199254740992"
    using double_round_eval[of 53 9007199254740993] by (simp add: round_half_even_def)
  show "double_round (135107988821114875 / 1125899906842624) = 120"
    using double_round_eval[of 6 "135107988821114875 / 1125899906842624"]
    by (simp add: round_half_even_def)
qed


text \<open>
  The constructor after its \<^verbatim>\<open>or\<close>, and the definitions that evaluate it.
\<close>

lemma RateLimiter_init_float_cases:
  assumes "py_or rpw (rate_limit_requests st) = r" and "py_or ws (rate_limit_window st) = w"
    and "w \<noteq> 0"
  shows "RateLimiter_init_float st rpw ws burst now =
     (if double_overflow (of_int r / of_int w) \<or> double_overflow (of_int r)
         \<or> 2 ^ 1024 \<le> \<bar>double_round (double_round (of_int r) * burst)\<bar>
      then Inl OverflowError
      else Inr \<lparr>requests_per_window = r, window_seconds = w,
                limiter_rate = double_round (of_int r / of_int w),
                limiter_capacity = py_int (double_round (double_round (of_int r) * burst)),
                buckets = Map.empty, last_cleanup = now, cleanup_interval = 3600\<rparr>)"
  using assms
  by (simp add: RateLimiter_init_float_def int_true_divide_def int_to_float_def
      float_to_int_def float_mul_def)

lemmas float_defs = RateLimiter_init_float_def int_true_divide_def int_to_float_def
  float_to_int_def float_mul_def double_overflow_def py_or_def py_int_def default_settings_def
  Let_def

section \<open>Properties of the rate limiter\<close>

subsection \<open>Construction\<close>







text \<open>
  For the first scenario the float constructor and the exact one agree. For the second
  one the float rate is the double nearest to \<open>1 / 7200\<close>, and the scenario has the exact
  \<open>1 / 7200\<close>.
\<close>

lemma init_float_fast_scenario:
  "RateLimiter_init_float default_settings (Some 2) (Some 1) (3/2) 0
     = RateLimiter_init default_settings (Some 2) (Some 1) (3/2) 0"
  using double_round_of_int[of 2] double_round_of_int[of 3]
  by (simp add: float_defs RateLimiter_init_def)

lemma init_float_slow_scenario:
  "RateLimiter_init_float default_settings (Some 1) (Some 7200) (3/2) 0
     = Inr (slow_limiter Map.empty 0\<lparr>limiter_rate := 5124095576030431 / 2 ^ 65\<rparr>)"
  using double_round_eval[of "- 13" "1/7200"]
  by (simp add: float_defs double_round_examples round_half_even_def)

subsection \<open>How the operations act on the state\<close>

lemma maybe_cleanup_fields [simp]:
  "limiter_rate (maybe_cleanup s now) = limiter_rate s"
  "limiter_capacity (maybe_cleanup s now) = limiter_capacity s"
  "cleanup_interval (maybe_cleanup s now) = cleanup_interval s"
  by (simp_all add: maybe_cleanup_def)

lemma maybe_cleanup_last_cleanup:
  "last_cleanup (maybe_cleanup s now) = (if cleanup_due s now then now else last_cleanup s)"
  by (simp add: maybe_cleanup_def cleanup_due_def)

lemma maybe_cleanup_buckets:
  "buckets (maybe_cleanup s now) k =
     (if cleanup_due s now \<and> k \<in> stale_clients s now then None else buckets s k)"
  by (simp add: maybe_cleanup_def cleanup_due_def restrict_map_def)

lemma stale_clients_iff:
  "k \<in> stale_clients s now \<longleftrightarrow>
     (case buckets s k of None \<Rightarrow> False | Some b \<Rightarrow> cleanup_interval s < now - last_update b)"
  by (simp add: stale_clients_def)

lemma maybe_cleanup_not_due: "\<not> cleanup_due s now \<Longrightarrow> maybe_cleanup s now = s"
  by (simp add: maybe_cleanup_def cleanup_due_def)

lemma is_allowed_unfold:
  "is_allowed s k ck =
    (let s1 = maybe_cleanup s (t_cleanup ck);
         b1 = refill (fst (get_bucket s1 k (t_create ck))) (t_consume ck);
         b2 = refill b1 (t_retry ck)
     in if 1 \<le> tokens b1
        then Inr ((True, 0), s1\<lparr>buckets := (buckets s1)(k \<mapsto> b1\<lparr>tokens := tokens b1 - 1\<rparr>)\<rparr>)
        else if 1 \<le> tokens b2
        then Inr ((False, 1), s1\<lparr>buckets := (buckets s1)(k \<mapsto> b2)\<rparr>)
        else if rate b2 = 0 then Inl ZeroDivisionError
        else Inr ((False, py_int ((1 - tokens b2) / rate b2) + 1),
                  s1\<lparr>buckets := (buckets s1)(k \<mapsto> b2)\<rparr>))"
  by (cases "buckets (maybe_cleanup s (t_cleanup ck)) k")
     (simp_all add: is_allowed_def get_bucket_def consume_def time_until_available_def
        Let_def py_int_def)

text \<open>
  What a call leaves in the state, whatever its answer.
\<close>

lemma is_allowed_state:
  assumes "is_allowed s k ck = Inr (res, s')"
  shows "limiter_rate s' = limiter_rate s"
    and "limiter_capacity s' = limiter_capacity s"
    and "cleanup_interval s' = cleanup_interval s"
    and "last_cleanup s' = (if cleanup_due s (t_cleanup ck) then t_cleanup ck else last_cleanup s)"
    and "k' \<noteq> k \<Longrightarrow> buckets s' k' = buckets (maybe_cleanup s (t_cleanup ck)) k'"
    and "\<exists>b. buckets s' k = Some b
           \<and> last_update b = (if fst res then t_consume ck else t_retry ck)
           \<and> rate b = rate (fst (get_bucket (maybe_cleanup s (t_cleanup ck)) k (t_create ck)))"
  using assms unfolding is_allowed_unfold Let_def
  by (auto simp add: maybe_cleanup_last_cleanup split: if_splits)

text \<open>
  The definitions that evaluate a call on a given state.
\<close>

lemmas eval_defs = is_allowed_def get_bucket_def consume_def time_until_available_def
        Let_def py_int_def refill_def maybe_cleanup_def stale_clients_def TokenBucket_init_def
        at_time_def RateLimiter_init_def py_or_def default_settings_def restrict_map_def
        cleanup_due_def positive_rates_def

subsection \<open>No division by zero\<close>

lemma positive_rates_cleanup: "positive_rates s \<Longrightarrow> positive_rates (maybe_cleanup s now)"
  by (auto simp add: positive_rates_def maybe_cleanup_buckets split: if_splits)

lemma get_bucket_rate:
  "positive_rates s \<Longrightarrow> 0 < rate (fst (get_bucket s k now))"
  by (cases "buckets s k")
     (auto simp add: positive_rates_def get_bucket_def TokenBucket_init_def Let_def)


lemma init_positive_rates:
  assumes "0 < rpw" and "0 < ws"
  shows "\<exists>s0. RateLimiter_init st (Some rpw) (Some ws) burst t0 = Inr s0 \<and> positive_rates s0"
  using assms by (simp add: RateLimiter_init_def py_or_def positive_rates_def)

lemma init_float_positive_rates:
  assumes "py_or rpw (rate_limit_requests st) = r" and "py_or ws (rate_limit_window st) = w"
    and "0 < w" and "2 powi (- 1075) < real_of_int r / real_of_int w"
    and "RateLimiter_init_float st rpw ws burst t0 = Inr s0"
  shows "positive_rates s0"
proof -
  have "limiter_rate s0 = double_round (of_int r / of_int w)" and "buckets s0 = Map.empty"
    using RateLimiter_init_float_cases[OF assms(1,2), of burst t0] assms(3,5)
    by (auto split: if_splits)
  then show ?thesis using double_round_pos[OF assms(4)] by (simp add: positive_rates_def)
qed






subsection \<open>The retry delay\<close>

text \<open>
  Claim C1, as stated, fails: \<^verbatim>\<open>is_allowed\<close> computes \<^verbatim>\<open>int(wait) + 1\<close>, and \<^verbatim>\<open>int\<close>
  truncates. The limiter for 2 requests per second gives a bucket 3 tokens and the rate 2.
  After three admitted calls at one clock reading the fourth call is denied;
  \<^verbatim>\<open>time_until_available\<close> is 1/2 second and its ceiling plus one is 2, but the call
  returns 1.
\<close>

theorem retry_after_counterexample:
  "RateLimiter_init default_settings (Some 2) (Some 1) (3/2) 0 = Inr (fast_limiter Map.empty 0)
   \<and> run_calls (fast_limiter Map.empty 0)
        [(''a'', at_time 0), (''a'', at_time 0), (''a'', at_time 0)]
       = Inr (fast_limiter [''a'' \<mapsto> fast_bucket 0 0] 0)
   \<and> is_allowed (fast_limiter [''a'' \<mapsto> fast_bucket 0 0] 0) ''a'' (at_time 0)
       = Inr ((False, 1), fast_limiter [''a'' \<mapsto> fast_bucket 0 0] 0)
   \<and> time_until_available (fast_bucket 0 0) 0 1 = Inr (1/2, fast_bucket 0 0)
   \<and> \<lceil>1/2 :: real\<rceil> + 1 = 2"
proof -
  have "\<lceil>1/2 :: real\<rceil> = 1" by (rule ceiling_unique) simp_all
  then show ?thesis by (simp add: eval_defs)
qed

text \<open>
  Claim C1, amended. On a limiter whose rates are positive, a denied \<^verbatim>\<open>is_allowed\<close>
  call returns \<open>\<lfloor>wait\<rfloor> + 1\<close>, where \<open>wait \<ge> 0\<close> is what \<^verbatim>\<open>time_until_available(1)\<close>
  returns on that client's bucket at the last clock reading of the call. This is
  \<open>\<lceil>wait\<rceil> + 1\<close> when \<open>wait\<close> is a whole number and \<open>\<lceil>wait\<rceil>\<close> otherwise.
\<close>

theorem retry_after_value:
  assumes "positive_rates s" and "is_allowed s client ck = Inr ((False, retry), s')"
  shows "\<exists>b wait. buckets s' client = Some b
           \<and> time_until_available b (t_retry ck) 1 = Inr (wait, b)
           \<and> 0 \<le> wait \<and> retry = \<lfloor>wait\<rfloor> + 1
           \<and> retry = (if of_int \<lfloor>wait\<rfloor> = wait then \<lceil>wait\<rceil> + 1 else \<lceil>wait\<rceil>)"
proof -
  let ?s1 = "maybe_cleanup s (t_cleanup ck)"
  let ?b1 = "refill (fst (get_bucket ?s1 client (t_create ck))) (t_consume ck)"
  let ?b2 = "refill ?b1 (t_retry ck)"
  have r: "0 < rate ?b2"
    using get_bucket_rate[OF positive_rates_cleanup[OF assms(1)]] by simp
  have idem: "refill ?b2 (t_retry ck) = ?b2" by (rule refill_idem)
  have ceil: "(if of_int \<lfloor>w\<rfloor> = w then \<lceil>w\<rceil> + 1 else \<lceil>w\<rceil>) = \<lfloor>w\<rfloor> + 1" for w :: real
    by (auto simp add: ceiling_altdef)
  show ?thesis
  proof (cases "1 \<le> tokens ?b2")
    case True
    then have "buckets s' client = Some ?b2" "retry = 1"
      using assms(2) unfolding is_allowed_unfold Let_def by (auto split: if_splits)
    moreover have "time_until_available ?b2 (t_retry ck) 1 = Inr (0, ?b2)"
      using True idem by (simp add: time_until_available_def Let_def)
    ultimately show ?thesis by simp
  next
    case False
    let ?w = "(1 - tokens ?b2) / rate ?b2"
    have w: "0 \<le> ?w" using False r by simp
    have "buckets s' client = Some ?b2" "retry = py_int ?w + 1"
      using assms(2) False r unfolding is_allowed_unfold Let_def by (auto split: if_splits)
    moreover have "time_until_available ?b2 (t_retry ck) 1 = Inr (?w, ?b2)"
      using False idem r by (simp add: time_until_available_def Let_def)
    moreover have "py_int ?w + 1 = \<lfloor>?w\<rfloor> + 1" using w by (simp only: py_int_def if_True)
    ultimately show ?thesis using w ceil[of ?w]
      by (intro exI[of _ ?b2] exI[of _ ?w]) (simp only: simp_thms)
  qed
qed

theorem retry_after_value_witness:
  "positive_rates (fast_limiter [''a'' \<mapsto> fast_bucket 0 0] 0)
   \<and> is_allowed (fast_limiter [''a'' \<mapsto> fast_bucket 0 0] 0) ''a'' (at_time 0)
       = Inr ((False, 1), fast_limiter [''a'' \<mapsto> fast_bucket 0 0] 0)
   \<and> time_until_available (fast_bucket 0 0) 0 1 = Inr (1/2, fast_bucket 0 0)
   \<and> \<lfloor>1/2 :: real\<rfloor> + 1 = 1"
proof -
  let ?s = "fast_limiter [''a'' \<mapsto> fast_bucket 0 0] 0"
  have p: "positive_rates ?s" by (simp add: positive_rates_def)
  have c: "is_allowed ?s ''a'' (at_time 0) = Inr ((False, 1), ?s)" by (simp add: eval_defs)
  have w: "time_until_available (fast_bucket 0 0) 0 1 = Inr (1/2, fast_bucket 0 0)"
    by (simp add: eval_defs)
  from retry_after_value[OF p c] show ?thesis using p c w by simp
qed

subsection \<open>Cleanup\<close>

lemma sweep_times_spaced:
  "successively (\<lambda>t t'. cleanup_interval s \<le> t' - t) (last_cleanup s # sweep_times s calls)"
proof (induction calls arbitrary: s)
  case Nil
  then show ?case by simp
next
  case (Cons c calls)
  obtain k ck where c: "c = (k, ck)" by (cases c)
  let ?t = "t_cleanup ck"
  let ?P = "\<lambda>t t'. cleanup_interval s \<le> t' - t"
  show ?case
  proof (cases "is_allowed s k ck")
    case (Inl e)
    then show ?thesis using c by (simp add: cleanup_due_def)
  next
    case (Inr p)
    obtain res s' where p: "p = (res, s')" by (cases p)
    have st: "cleanup_interval s' = cleanup_interval s"
      "last_cleanup s' = (if cleanup_due s ?t then ?t else last_cleanup s)"
      using is_allowed_state(3,4)[of s k ck res s'] Inr p by simp_all
    have ih: "successively ?P (last_cleanup s' # sweep_times s' calls)"
      using Cons.IH[of s'] st(1) by simp
    show ?thesis
    proof (cases "cleanup_due s ?t")
      case True
      then have "?P (last_cleanup s) ?t" by (simp add: cleanup_due_def)
      then show ?thesis using True ih st(2) Inr p c by simp
    next
      case False
      then show ?thesis using ih st(2) Inr p c by simp
    qed
  qed
qed

text \<open>
  Claim C4. A pass of \<^verbatim>\<open>_maybe_cleanup\<close> is a call in which the sweep runs (the call
  does not return early). Such a pass deletes every key whose bucket was last refilled
  more than \<open>cleanup_interval\<close> before the reading of the clock, and sets
  \<open>last_cleanup\<close> to that reading. A key whose bucket was refilled at most
  \<open>cleanup_interval\<close> before keeps its bucket in any call. A call in which the sweep is
  not due changes nothing, and after a pass every call less than \<open>cleanup_interval\<close>
  later is such a call. \<^verbatim>\<open>is_allowed\<close> changes \<open>last_cleanup\<close> and the buckets of
  the other keys only through its \<^verbatim>\<open>_maybe_cleanup\<close> call. So in a series of
  \<^verbatim>\<open>is_allowed\<close> calls every sweep runs at least \<open>cleanup_interval\<close> after the sweep
  before it, and the first one that long after \<open>last_cleanup\<close>.
\<close>

theorem idle_eviction:
  "(cleanup_due s now \<and> buckets s k = Some b \<and> cleanup_interval s < now - last_update b
      \<longrightarrow> buckets (maybe_cleanup s now) k = None)
   \<and> (buckets s k = Some b \<and> now - last_update b \<le> cleanup_interval s
      \<longrightarrow> buckets (maybe_cleanup s now) k = Some b)
   \<and> (\<not> cleanup_due s now \<longrightarrow> maybe_cleanup s now = s)
   \<and> (cleanup_due s now
      \<longrightarrow> last_cleanup (maybe_cleanup s now) = now
        \<and> (\<forall>now'. now' - now < cleanup_interval s
              \<longrightarrow> maybe_cleanup (maybe_cleanup s now) now' = maybe_cleanup s now))
   \<and> (is_allowed s k' ck = Inr (res, s')
      \<longrightarrow> last_cleanup s' = last_cleanup (maybe_cleanup s (t_cleanup ck))
        \<and> cleanup_interval s' = cleanup_interval s
        \<and> (\<forall>key. key \<noteq> k' \<longrightarrow> buckets s' key = buckets (maybe_cleanup s (t_cleanup ck)) key))
   \<and> successively (\<lambda>t t'. cleanup_interval s \<le> t' - t) (last_cleanup s # sweep_times s calls)"
proof (intro conjI impI allI)
  assume "cleanup_due s now \<and> buckets s k = Some b \<and> cleanup_interval s < now - last_update b"
  then show "buckets (maybe_cleanup s now) k = None"
    by (simp add: maybe_cleanup_buckets stale_clients_iff)
next
  assume "buckets s k = Some b \<and> now - last_update b \<le> cleanup_interval s"
  then show "buckets (maybe_cleanup s now) k = Some b"
    by (simp add: maybe_cleanup_buckets stale_clients_iff)
next
  assume "\<not> cleanup_due s now"
  then show "maybe_cleanup s now = s" by (rule maybe_cleanup_not_due)
next
  assume "cleanup_due s now"
  then show "last_cleanup (maybe_cleanup s now) = now" by (simp add: maybe_cleanup_last_cleanup)
next
  fix now'
  assume due: "cleanup_due s now" and soon: "now' - now < cleanup_interval s"
  have "last_cleanup (maybe_cleanup s now) = now"
    using due by (simp add: maybe_cleanup_last_cleanup)
  then have "\<not> cleanup_due (maybe_cleanup s now) now'"
    using soon by (simp add: cleanup_due_def)
  then show "maybe_cleanup (maybe_cleanup s now) now' = maybe_cleanup s now"
    by (rule maybe_cleanup_not_due)
next
  assume a: "is_allowed s k' ck = Inr (res, s')"
  show "last_cleanup s' = last_cleanup (maybe_cleanup s (t_cleanup ck))"
    using is_allowed_state(4)[OF a] by (simp add: maybe_cleanup_last_cleanup)
  show "cleanup_interval s' = cleanup_interval s" using is_allowed_state(3)[OF a] .
  fix key
  assume "key \<noteq> k'"
  then show "buckets s' key = buckets (maybe_cleanup s (t_cleanup ck)) key"
    using is_allowed_state(5)[OF a] by simp
next
  show "successively (\<lambda>t t'. cleanup_interval s \<le> t' - t) (last_cleanup s # sweep_times s calls)"
    by (rule sweep_times_spaced)
qed

theorem idle_eviction_witness:
  "cleanup_due (slow_limiter [''old'' \<mapsto> slow_bucket 0 0, ''new'' \<mapsto> slow_bucket 0 1000] 0) 3700
   \<and> buckets (maybe_cleanup
         (slow_limiter [''old'' \<mapsto> slow_bucket 0 0, ''new'' \<mapsto> slow_bucket 0 1000] 0) 3700) ''old''
       = None
   \<and> buckets (maybe_cleanup
         (slow_limiter [''old'' \<mapsto> slow_bucket 0 0, ''new'' \<mapsto> slow_bucket 0 1000] 0) 3700) ''new''
       = Some (slow_bucket 0 1000)
   \<and> last_cleanup (maybe_cleanup
         (slow_limiter [''old'' \<mapsto> slow_bucket 0 0, ''new'' \<mapsto> slow_bucket 0 1000] 0) 3700)
       = 3700
   \<and> maybe_cleanup
         (slow_limiter [''old'' \<mapsto> slow_bucket 0 0, ''new'' \<mapsto> slow_bucket 0 1000] 3700) 7299
       = slow_limiter [''old'' \<mapsto> slow_bucket 0 0, ''new'' \<mapsto> slow_bucket 0 1000] 3700
   \<and> map_sum id (\<lambda>p. (fst p, buckets (snd p) ''old'', last_cleanup (snd p)))
         (is_allowed (slow_limiter [''old'' \<mapsto> slow_bucket 0 0, ''new'' \<mapsto> slow_bucket 0 1000] 0)
            ''new'' (at_time 3700))
       = Inr ((False, 4501), None, 3700)
   \<and> sweep_times (slow_limiter [''old'' \<mapsto> slow_bucket 0 0, ''new'' \<mapsto> slow_bucket 0 1000] 0)
        [(''new'', at_time 3700), (''new'', at_time 3800), (''new'', at_time 7300)]
       = [3700, 7300]"
proof -
  let ?s = "slow_limiter [''old'' \<mapsto> slow_bucket 0 0, ''new'' \<mapsto> slow_bucket 0 1000] 0"
  let ?t = "slow_limiter [''old'' \<mapsto> slow_bucket 0 0, ''new'' \<mapsto> slow_bucket 0 1000] 3700"
  let ?calls = "[(''new'', at_time 3700), (''new'', at_time 3800), (''new'', at_time 7300)]"
  let ?s' = "snd (projr (is_allowed ?s ''new'' (at_time 3700)))"
  have st: "sweep_times ?s ?calls = [3700, 7300]" by (simp add: eval_defs)
  have one: "is_allowed ?s ''new'' (at_time 3700) = Inr ((False, 4501), ?s')"
    by (simp add: eval_defs)
  have obs: "map_sum id (\<lambda>p. (fst p, buckets (snd p) ''old'', last_cleanup (snd p)))
         (is_allowed ?s ''new'' (at_time 3700)) = Inr ((False, 4501), None, 3700)"
    by (simp add: eval_defs)
  show ?thesis
    using idle_eviction[of ?s 3700 "''old''" "slow_bucket 0 0" "''new''" "at_time 3700"
        "(False, 4501)" ?s' ?calls]
      idle_eviction[of ?s 3700 "''new''" "slow_bucket 0 1000" "''new''" "at_time 3700"
        "(False, 4501)" ?s' ?calls]
      idle_eviction[of ?t 7299 "''new''" "slow_bucket 0 1000" "''new''" "at_time 3700"
        "(False, 4501)" ?s' "[]"]
      st obs
    by (simp add: cleanup_due_def)
qed

subsection \<open>Independence of keys\<close>

lemma is_allowed_result_cong:
  assumes "last_cleanup s' = last_cleanup s" and "cleanup_interval s' = cleanup_interval s"
    and "limiter_rate s' = limiter_rate s" and "limiter_capacity s' = limiter_capacity s"
    and "buckets s' k = buckets s k"
  shows "map_sum id fst (is_allowed s' k ck) = map_sum id fst (is_allowed s k ck)"
proof -
  have due: "cleanup_due s' t = cleanup_due s t" for t
    using assms by (simp add: cleanup_due_def)
  have stale: "k \<in> stale_clients s' t \<longleftrightarrow> k \<in> stale_clients s t" for t
    using assms by (simp add: stale_clients_iff split: option.splits)
  have b: "buckets (maybe_cleanup s' t) k = buckets (maybe_cleanup s t) k" for t
    using assms due stale by (simp add: maybe_cleanup_buckets)
  have "fst (get_bucket (maybe_cleanup s' t) k t') = fst (get_bucket (maybe_cleanup s t) k t')"
    for t t'
    using b[of t] assms by (simp add: get_bucket_def Let_def split: option.splits)
  then show ?thesis
    unfolding is_allowed_unfold Let_def by simp
qed

lemma run_calls_one_key_frame:
  assumes "A \<noteq> B" and "\<forall>ck \<in> set cks. \<not> cleanup_due s (t_cleanup ck)"
    and "run_calls s (map (Pair A) cks) = Inr s'"
  shows "buckets s' B = buckets s B \<and> last_cleanup s' = last_cleanup s
       \<and> cleanup_interval s' = cleanup_interval s
       \<and> limiter_rate s' = limiter_rate s \<and> limiter_capacity s' = limiter_capacity s"
  using assms(2,3)
proof (induction cks arbitrary: s)
  case Nil
  then show ?case by simp
next
  case (Cons ck cks)
  obtain res s1 where s1: "is_allowed s A ck = Inr (res, s1)" "run_calls s1 (map (Pair A) cks) = Inr s'"
    using Cons.prems(2) by (auto split: sum.splits)
  have nd: "\<not> cleanup_due s (t_cleanup ck)" using Cons.prems(1) by simp
  have st: "limiter_rate s1 = limiter_rate s" "limiter_capacity s1 = limiter_capacity s"
    "cleanup_interval s1 = cleanup_interval s" "last_cleanup s1 = last_cleanup s"
    "buckets s1 B = buckets s B"
    using is_allowed_state[OF s1(1)] nd assms(1) by (simp_all add: maybe_cleanup_not_due)
  have "\<forall>ck \<in> set cks. \<not> cleanup_due s1 (t_cleanup ck)"
    using Cons.prems(1) st by (simp add: cleanup_due_def)
  from Cons.IH[OF this s1(2)] st show ?case by simp
qed

text \<open>
  Claim C6, as stated, fails: the sweep and its timestamp \<open>last_cleanup\<close> are shared by
  all keys. On the limiter for 1 request per 7200 seconds, built at time 0, client B is
  admitted at time 100. Alone, B is admitted again at time 3701, because that call sweeps
  B's idle bucket away and makes a new, full one. When client A exhausts its own bucket
  with two calls at time 3600, the first of them runs the sweep while B's bucket is not yet
  stale, so no sweep is due at time 3701 and B is denied with its old bucket.
\<close>

theorem independence_counterexample:
  "RateLimiter_init default_settings (Some 1) (Some 7200) (3/2) 0 = Inr (slow_limiter Map.empty 0)
   \<and> call_results (slow_limiter Map.empty 0) [(''B'', at_time 100), (''B'', at_time 3701)]
       = Inr [(True, 0), (True, 0)]
   \<and> call_results (slow_limiter Map.empty 0)
        [(''B'', at_time 100), (''A'', at_time 3600), (''A'', at_time 3600), (''B'', at_time 3701)]
       = Inr [(True, 0), (True, 0), (False, 7201), (False, 3600)]"
  by (simp add: eval_defs)

text \<open>
  Claim C6, amended. For distinct keys A and B, an \<^verbatim>\<open>is_allowed(A)\<close> call leaves B's
  bucket as it was, unless its sweep runs and deletes the bucket as stale. After any series
  of \<^verbatim>\<open>is_allowed(A)\<close> calls during which no sweep is due, B's bucket is unchanged and
  B's next call gets the answer (outcome and retry delay) that it would have got without
  them.
\<close>

theorem key_independence:
  assumes "A \<noteq> B"
  shows "(is_allowed s A ck = Inr (res, s1) \<longrightarrow>
            buckets s1 B = (if cleanup_due s (t_cleanup ck) \<and> B \<in> stale_clients s (t_cleanup ck)
                            then None else buckets s B))
       \<and> ((\<forall>c \<in> set cks. \<not> cleanup_due s (t_cleanup c)) \<and> run_calls s (map (Pair A) cks) = Inr s'
            \<longrightarrow> buckets s' B = buckets s B
              \<and> map_sum id fst (is_allowed s' B ck') = map_sum id fst (is_allowed s B ck'))"
proof (intro conjI impI)
  assume "is_allowed s A ck = Inr (res, s1)"
  from is_allowed_state(5)[OF this, of B] assms
  show "buckets s1 B = (if cleanup_due s (t_cleanup ck) \<and> B \<in> stale_clients s (t_cleanup ck)
                            then None else buckets s B)"
    by (simp add: maybe_cleanup_buckets)
next
  assume a: "(\<forall>c \<in> set cks. \<not> cleanup_due s (t_cleanup c)) \<and> run_calls s (map (Pair A) cks) = Inr s'"
  then have f: "buckets s' B = buckets s B \<and> last_cleanup s' = last_cleanup s
       \<and> cleanup_interval s' = cleanup_interval s
       \<and> limiter_rate s' = limiter_rate s \<and> limiter_capacity s' = limiter_capacity s"
    using run_calls_one_key_frame[OF assms, of cks s s'] by blast
  then show "buckets s' B = buckets s B" by simp
  show "map_sum id fst (is_allowed s' B ck') = map_sum id fst (is_allowed s B ck')"
    by (rule is_allowed_result_cong) (use f in simp_all)
qed

theorem key_independence_witness:
  "''A'' \<noteq> ''B''
   \<and> is_allowed (slow_limiter [''B'' \<mapsto> slow_bucket 0 100] 0) ''A'' (at_time 200)
       = Inr ((True, 0), slow_limiter [''B'' \<mapsto> slow_bucket 0 100, ''A'' \<mapsto> slow_bucket 0 200] 0)
   \<and> \<not> cleanup_due (slow_limiter [''B'' \<mapsto> slow_bucket 0 100] 0) 200
   \<and> run_calls (slow_limiter [''B'' \<mapsto> slow_bucket 0 100] 0)
        [(''A'', at_time 200), (''A'', at_time 200)]
       = Inr (slow_limiter [''B'' \<mapsto> slow_bucket 0 100, ''A'' \<mapsto> slow_bucket 0 200] 0)
   \<and> buckets (slow_limiter [''B'' \<mapsto> slow_bucket 0 100, ''A'' \<mapsto> slow_bucket 0 200] 0) ''B''
       = Some (slow_bucket 0 100)
   \<and> map_sum id fst
        (is_allowed (slow_limiter [''B'' \<mapsto> slow_bucket 0 100, ''A'' \<mapsto> slow_bucket 0 200] 0)
           ''B'' (at_time 300))
       = map_sum id fst
        (is_allowed (slow_limiter [''B'' \<mapsto> slow_bucket 0 100] 0) ''B'' (at_time 300))"
proof -
  let ?s = "slow_limiter [''B'' \<mapsto> slow_bucket 0 100] 0"
  let ?s' = "slow_limiter [''B'' \<mapsto> slow_bucket 0 100, ''A'' \<mapsto> slow_bucket 0 200] 0"
  have ne: "''A'' \<noteq> ''B''" by simp
  have one: "is_allowed ?s ''A'' (at_time 200) = Inr ((True, 0), ?s')" by (simp add: eval_defs)
  have nd: "\<forall>c \<in> set [at_time 200, at_time 200]. \<not> cleanup_due ?s (t_cleanup c)"
    by (simp add: cleanup_due_def at_time_def)
  have run: "run_calls ?s (map (Pair ''A'') [at_time 200, at_time 200]) = Inr ?s'"
    by (simp add: eval_defs)
  show ?thesis
    using key_independence[OF ne, of ?s "at_time 200" "(True, 0)" ?s'
        "[at_time 200, at_time 200]" ?s' "at_time 300"] one nd run
    by (simp add: cleanup_due_def)
qed

subsection \<open>Keys that are checked regularly\<close>

lemma checked_within_survives:
  assumes "buckets s K = Some b" and "seen \<le> last_update b"
    and "checked_within (cleanup_interval s) K seen calls"
    and "run_calls s calls = Inr s'"
  shows "\<exists>b'. buckets s' K = Some b'"
  using assms
proof (induction calls arbitrary: s b seen)
  case Nil
  then show ?case by simp
next
  case (Cons c calls)
  obtain k ck where c: "c = (k, ck)" by (cases c)
  obtain res s1 where s1: "is_allowed s k ck = Inr (res, s1)" "run_calls s1 calls = Inr s'"
    using Cons.prems(4) c by (auto split: sum.splits)
  let ?t = "t_cleanup ck"
  have cw: "?t - seen \<le> cleanup_interval s" "t_consume ck \<le> t_retry ck"
    "checked_within (cleanup_interval s) K (if k = K then t_consume ck else seen) calls"
    using Cons.prems(3) c by simp_all
  have fresh: "K \<notin> stale_clients s ?t"
    using Cons.prems(1,2) cw(1) by (simp add: stale_clients_iff)
  have iv: "cleanup_interval s1 = cleanup_interval s" using is_allowed_state(3)[OF s1(1)] .
  show ?case
  proof (cases "k = K")
    case True
    obtain b1 where b1: "buckets s1 K = Some b1"
      "last_update b1 = (if fst res then t_consume ck else t_retry ck)"
      using is_allowed_state(6)[OF s1(1)] True by blast
    have "t_consume ck \<le> last_update b1" using b1(2) cw(2) by simp
    moreover have "checked_within (cleanup_interval s1) K (t_consume ck) calls"
      using cw(3) True iv by simp
    ultimately show ?thesis using Cons.IH[OF b1(1) _ _ s1(2)] by blast
  next
    case False
    have "buckets s1 K = Some b"
      using is_allowed_state(5)[OF s1(1), of K] False fresh Cons.prems(1)
      by (simp add: maybe_cleanup_buckets)
    moreover have "checked_within (cleanup_interval s1) K seen calls"
      using cw(3) False iv by simp
    ultimately show ?thesis using Cons.IH[OF _ Cons.prems(2) _ s1(2)] by blast
  qed
qed

text \<open>
  Claim C10. After an \<^verbatim>\<open>is_allowed\<close> call the bucket of its key exists and its
  \<open>last_update\<close> is the last clock reading of the call: the one of \<^verbatim>\<open>consume\<close> when the
  call admits, the one of \<^verbatim>\<open>time_until_available\<close> when it denies. So a key with a
  bucket keeps one through every series of calls in which each call starts at most
  \<open>cleanup_interval\<close> after the latest check of the key, whatever the answers are.
\<close>

theorem checked_key_survives:
  "(is_allowed s K ck = Inr ((allowed, retry), s1) \<longrightarrow>
      (\<exists>b. buckets s1 K = Some b
          \<and> last_update b = (if allowed then t_consume ck else t_retry ck)))
   \<and> (buckets s K = Some b0 \<and> seen \<le> last_update b0
       \<and> checked_within (cleanup_interval s) K seen calls \<and> run_calls s calls = Inr s'
      \<longrightarrow> (\<exists>b. buckets s' K = Some b))"
proof (intro conjI impI)
  assume "is_allowed s K ck = Inr ((allowed, retry), s1)"
  from is_allowed_state(6)[OF this]
  show "\<exists>b. buckets s1 K = Some b \<and> last_update b = (if allowed then t_consume ck else t_retry ck)"
    by auto
next
  assume "buckets s K = Some b0 \<and> seen \<le> last_update b0
       \<and> checked_within (cleanup_interval s) K seen calls \<and> run_calls s calls = Inr s'"
  then show "\<exists>b. buckets s' K = Some b"
    using checked_within_survives[of s K b0 seen calls s'] by blast
qed

theorem checked_key_survives_witness:
  "map_sum id (\<lambda>p. (fst p, map_option last_update (buckets (snd p) ''K'')))
        (is_allowed (slow_limiter [''K'' \<mapsto> slow_bucket 0 100] 0) ''K'' (at_time 3600))
       = Inr ((False, 3701), Some 3600)
   \<and> checked_within 3600 ''K'' 100 [(''K'', at_time 3600), (''x'', at_time 7200)]
   \<and> sweep_times (slow_limiter [''K'' \<mapsto> slow_bucket 0 100] 0)
        [(''K'', at_time 3600), (''x'', at_time 7200)] = [3600, 7200]
   \<and> map_sum id (\<lambda>s. map_option last_update (buckets s ''K''))
        (run_calls (slow_limiter [''K'' \<mapsto> slow_bucket 0 100] 0)
           [(''K'', at_time 3600), (''x'', at_time 7200)])
       = Inr (Some 3600)"
proof -
  let ?s = "slow_limiter [''K'' \<mapsto> slow_bucket 0 100] 0"
  let ?calls = "[(''K'', at_time 3600), (''x'', at_time 7200)]"
  let ?s1 = "snd (projr (is_allowed ?s ''K'' (at_time 3600)))"
  let ?s' = "projr (run_calls ?s ?calls)"
  have one: "is_allowed ?s ''K'' (at_time 3600) = Inr ((False, 3701), ?s1)"
    by (simp add: eval_defs)
  have cw: "checked_within 3600 ''K'' 100 ?calls" by (simp add: at_time_def)
  have run: "run_calls ?s ?calls = Inr ?s'" by (simp add: eval_defs)
  have st: "sweep_times ?s ?calls = [3600, 7200]" by (simp add: eval_defs)
  have lu: "map_sum id (\<lambda>s. map_option last_update (buckets s ''K'')) (run_calls ?s ?calls)
       = Inr (Some 3600)" by (simp add: eval_defs)
  show ?thesis
    using checked_key_survives[of ?s "''K''" "at_time 3600" False 3701 ?s1
        "slow_bucket 0 100" 100 ?calls ?s'] one cw run st lu
    by (simp add: eval_defs)
qed

end
